theory Spec2Isabelle
  imports Main "HOL-Library.Word" "HOL-Library.Multiset" "HOL-Library.Code_Target_Numeral"
begin

section \<open>The type-erased sequence view of flow.h\<close>

text \<open>
  The C struct \<open>Iterator\<close> holds a pointer \<open>data\<close>, a count \<open>len\<close> and the size
  \<open>elem_size\<close> of one element in bytes. Memory is modelled one cell per element (a cell
  stands for the \<open>elem_size\<close> bytes of an element, so equality of cells is what
  \<open>memcmp\<close> over \<open>elem_size\<close> bytes decides). A pointer is the allocation it points
  into (\<open>store\<close>) together with the index of the cell it addresses (\<open>data\<close>), so that
  \<open>(char*)data + k * elem_size\<close> is \<open>data + k\<close> in the same \<open>store\<close>.
  \<open>size_t\<close> values are natural numbers; where the C code adds or multiplies two of them,
  the wrap-around modulo \<open>2 ^ 64\<close> is written out with \<open>size_t\<close>.
\<close>

record 'a Iterator =
  store :: "'a list"
  data :: nat
  len :: nat
  elem_size :: nat

definition size_t :: "nat \<Rightarrow> nat" where
  "size_t n = n mod 2 ^ 64"

text \<open>
  A view is valid when its \<open>len\<close> cells lie inside the allocation. No object of GCC or
  Clang (the compilers that accept the statement expressions of flow.h) is larger than
  \<open>PTRDIFF_MAX\<close> bytes, and a cell is at least one byte.
\<close>

definition view_ok :: "'a Iterator \<Rightarrow> bool" where
  "view_ok it = (data it + len it \<le> length (store it) \<and> length (store it) < 2 ^ 63)"

text \<open>
  Reading cell \<open>i\<close> through the view, \<open>((type* )it.data)[i]\<close>. A read that leaves the
  allocation is undefined behaviour in C; here it is \<open>None\<close>.
\<close>

definition rd :: "'a Iterator \<Rightarrow> nat \<Rightarrow> 'a option" where
  "rd it i = (if data it + i < length (store it) then Some (store it ! (data it + i)) else None)"

text \<open>The elements a view denotes: cells \<open>0 .. len - 1\<close> from its pointer on.\<close>

definition elems :: "'a Iterator \<Rightarrow> 'a list" where
  "elems it = take (len it) (drop (data it) (store it))"

text \<open>\<open>to_iter(arr)\<close>: the view of a whole array; \<open>sz\<close> is \<open>sizeof( *arr)\<close>.\<close>

definition to_iter :: "'a list \<Rightarrow> nat \<Rightarrow> 'a Iterator" where
  "to_iter arr sz = \<lparr>store = arr, data = 0, len = length arr, elem_size = sz\<rparr>"

subsection \<open>Borrowing views: slice, take, drop\<close>

definition iter_slice :: "'a Iterator \<Rightarrow> nat \<Rightarrow> nat \<Rightarrow> 'a Iterator" where
  "iter_slice it start stop =
     (let s = (if start < len it then start else len it);
          e = (if stop < len it then stop else len it)
      in \<lparr>store = store it, data = data it + s,
          len = (if e > s then e - s else 0), elem_size = elem_size it\<rparr>)"

definition iter_take :: "'a Iterator \<Rightarrow> nat \<Rightarrow> 'a Iterator" where
  "iter_take it n =
     (let n' = (if n < len it then n else len it)
      in \<lparr>store = store it, data = data it, len = n', elem_size = elem_size it\<rparr>)"

definition iter_drop :: "'a Iterator \<Rightarrow> nat \<Rightarrow> 'a Iterator" where
  "iter_drop it n =
     (let n' = (if n < len it then n else len it)
      in \<lparr>store = store it, data = data it + n', len = len it - n', elem_size = elem_size it\<rparr>)"

subsection \<open>Owning views: reverse\<close>

text \<open>
  A macro that builds a new view fills a fresh allocation from cell \<open>0\<close> upwards. The
  output buffer is modelled by the list of the cells written so far, so writing the next
  cell appends to it; cells of the allocation that the macro never writes are not part of
  the list. \<open>malloc\<close> is taken to succeed.
\<close>

function reverse_loop :: "'a Iterator \<Rightarrow> nat \<Rightarrow> 'a list \<Rightarrow> 'a list option" where
  "reverse_loop it i out =
     (if i < len it
      then (case rd it (len it - 1 - i) of
              None \<Rightarrow> None
            | Some x \<Rightarrow> reverse_loop it (i + 1) (out @ [x]))
      else Some out)"
  by pat_completeness auto
termination
  by (relation "measure (\<lambda>(it, i, out). len it - i)") auto

declare reverse_loop.simps [simp del]

definition iter_reverse :: "'a Iterator \<Rightarrow> 'a Iterator option" where
  "iter_reverse it =
     (case reverse_loop it 0 [] of
        None \<Rightarrow> None
      | Some out \<Rightarrow> Some \<lparr>store = out, data = 0, len = len it, elem_size = elem_size it\<rparr>)"

subsection \<open>Folds\<close>

text \<open>
  The macro argument \<open>expr\<close> of the folds is a C expression over the accumulator
  \<open>acc\<close> and the element \<open>x\<close>; it is the function \<open>f acc x\<close>.
\<close>

function foldl_loop :: "'a Iterator \<Rightarrow> ('b \<Rightarrow> 'a \<Rightarrow> 'b) \<Rightarrow> nat \<Rightarrow> 'b \<Rightarrow> 'b option" where
  "foldl_loop it f i acc =
     (if i < len it
      then (case rd it i of
              None \<Rightarrow> None
            | Some x \<Rightarrow> foldl_loop it f (i + 1) (f acc x))
      else Some acc)"
  by pat_completeness auto
termination
  by (relation "measure (\<lambda>(it, f, i, acc). len it - i)") auto

declare foldl_loop.simps [simp del]

definition iter_foldl :: "'a Iterator \<Rightarrow> 'b \<Rightarrow> ('b \<Rightarrow> 'a \<Rightarrow> 'b) \<Rightarrow> 'b option" where
  "iter_foldl it init f = foldl_loop it f 0 init"

text \<open>The cast \<open>(ptrdiff_t)n\<close> of a \<open>size_t\<close>: the 64-bit pattern read as two's complement.\<close>

definition ptrdiff_t :: "nat \<Rightarrow> int" where
  "ptrdiff_t n = (let m = int (size_t n) in if m < 2 ^ 63 then m else m - 2 ^ 64)"

function foldr_loop :: "'a Iterator \<Rightarrow> ('b \<Rightarrow> 'a \<Rightarrow> 'b) \<Rightarrow> int \<Rightarrow> 'b \<Rightarrow> 'b option" where
  "foldr_loop it f i acc =
     (if i \<ge> 0
      then (case rd it (nat i) of
              None \<Rightarrow> None
            | Some x \<Rightarrow> foldr_loop it f (i - 1) (f acc x))
      else Some acc)"
  by pat_completeness auto
termination
  by (relation "measure (\<lambda>(it, f, i, acc). nat (i + 1))") auto

declare foldr_loop.simps [simp del]

definition iter_foldr :: "'a Iterator \<Rightarrow> 'b \<Rightarrow> ('b \<Rightarrow> 'a \<Rightarrow> 'b) \<Rightarrow> 'b option" where
  "iter_foldr it init f = foldr_loop it f (ptrdiff_t (len it) - 1) init"

subsection \<open>Partition\<close>

text \<open>
  \<open>iter_partition(iter, type, x, pred)\<close>: \<open>pred\<close> is a C expression over the element
  \<open>x\<close>, true when non-zero; it is a predicate here. \<open>tsz\<close> is \<open>sizeof(type)\<close>. The
  counters \<open>_y\<close> and \<open>_n\<close> are the numbers of cells written to the two buffers, the
  lengths of \<open>ys\<close> and \<open>ns\<close>.
\<close>

record 'a IteratorPartitionResult =
  yes :: "'a Iterator"
  no :: "'a Iterator"

function partition_loop ::
  "'a Iterator \<Rightarrow> ('a \<Rightarrow> bool) \<Rightarrow> nat \<Rightarrow> 'a list \<Rightarrow> 'a list \<Rightarrow> ('a list \<times> 'a list) option" where
  "partition_loop it pred i ys ns =
     (if i < len it
      then (case rd it i of
              None \<Rightarrow> None
            | Some x \<Rightarrow>
                if pred x then partition_loop it pred (i + 1) (ys @ [x]) ns
                else partition_loop it pred (i + 1) ys (ns @ [x]))
      else Some (ys, ns))"
  by pat_completeness auto
termination
  by (relation "measure (\<lambda>(it, pred, i, ys, ns). len it - i)") auto

declare partition_loop.simps [simp del]

definition iter_partition ::
  "'a Iterator \<Rightarrow> nat \<Rightarrow> ('a \<Rightarrow> bool) \<Rightarrow> 'a IteratorPartitionResult option" where
  "iter_partition it tsz pred =
     (case partition_loop it pred 0 [] [] of
        None \<Rightarrow> None
      | Some (ys, ns) \<Rightarrow>
          Some \<lparr>yes = \<lparr>store = ys, data = 0, len = length ys, elem_size = tsz\<rparr>,
                no = \<lparr>store = ns, data = 0, len = length ns, elem_size = tsz\<rparr>\<rparr>)"

subsection \<open>any and all\<close>

text \<open>The C results \<open>1\<close> and \<open>0\<close> of \<open>iter_any\<close> and \<open>iter_all\<close> are \<open>True\<close> and \<open>False\<close>.\<close>

function any_loop :: "'a Iterator \<Rightarrow> ('a \<Rightarrow> bool) \<Rightarrow> nat \<Rightarrow> bool option" where
  "any_loop it pred i =
     (if i < len it
      then (case rd it i of
              None \<Rightarrow> None
            | Some x \<Rightarrow> if pred x then Some True else any_loop it pred (i + 1))
      else Some False)"
  by pat_completeness auto
termination
  by (relation "measure (\<lambda>(it, pred, i). len it - i)") auto

declare any_loop.simps [simp del]

definition iter_any :: "'a Iterator \<Rightarrow> ('a \<Rightarrow> bool) \<Rightarrow> bool option" where
  "iter_any it pred = any_loop it pred 0"

function all_loop :: "'a Iterator \<Rightarrow> ('a \<Rightarrow> bool) \<Rightarrow> nat \<Rightarrow> bool option" where
  "all_loop it pred i =
     (if i < len it
      then (case rd it i of
              None \<Rightarrow> None
            | Some x \<Rightarrow> if \<not> pred x then Some False else all_loop it pred (i + 1))
      else Some True)"
  by pat_completeness auto
termination
  by (relation "measure (\<lambda>(it, pred, i). len it - i)") auto

declare all_loop.simps [simp del]

definition iter_all :: "'a Iterator \<Rightarrow> ('a \<Rightarrow> bool) \<Rightarrow> bool option" where
  "iter_all it pred = all_loop it pred 0"

subsection \<open>unique\<close>

text \<open>
  The inner loop of \<open>iter_unique\<close> compares the current element with the cells
  \<open>0 .. _count - 1\<close> of the output (\<open>memcmp\<close> over \<open>elem_size\<close> bytes, equality of
  cells) and stops at the first equal one; \<open>unique_find x out j\<close> is the value of
  \<open>_found\<close> after the loop has run from \<open>_j = j\<close>. \<open>_count\<close> is the length of \<open>out\<close>.
\<close>

function unique_find :: "'a \<Rightarrow> 'a list \<Rightarrow> nat \<Rightarrow> bool" where
  "unique_find x out j =
     (if j < length out
      then (if x = out ! j then True else unique_find x out (j + 1))
      else False)"
  by pat_completeness auto
termination
  by (relation "measure (\<lambda>(x, out, j). length out - j)") auto

declare unique_find.simps [simp del]

function unique_loop :: "'a Iterator \<Rightarrow> nat \<Rightarrow> 'a list \<Rightarrow> 'a list option" where
  "unique_loop it i out =
     (if i < len it
      then (case rd it i of
              None \<Rightarrow> None
            | Some x \<Rightarrow>
                if \<not> unique_find x out 0 then unique_loop it (i + 1) (out @ [x])
                else unique_loop it (i + 1) out)
      else Some out)"
  by pat_completeness auto
termination
  by (relation "measure (\<lambda>(it, i, out). len it - i)") auto

declare unique_loop.simps [simp del]

definition iter_unique :: "'a Iterator \<Rightarrow> 'a Iterator option" where
  "iter_unique it =
     (case unique_loop it 0 [] of
        None \<Rightarrow> None
      | Some out \<Rightarrow> Some \<lparr>store = out, data = 0, len = length out, elem_size = elem_size it\<rparr>)"

subsection \<open>concat, pad, repeat\<close>

text \<open>
  \<open>memcpy\<close> of \<open>n\<close> cells that start at cell \<open>p\<close> of the allocation \<open>st\<close>: the cells
  copied, or \<open>None\<close> when the source range leaves the allocation. The destination is
  always the next free part of a fresh output buffer, so the copied cells are appended.
\<close>

definition memcpy_cells :: "'a list \<Rightarrow> nat \<Rightarrow> nat \<Rightarrow> 'a list option" where
  "memcpy_cells st p n = (if p + n \<le> length st then Some (take n (drop p st)) else None)"

text \<open>
  \<open>iter_concat\<close> copies \<open>_a.len * _a.elem_size\<close> bytes and then
  \<open>_b.len * _b.elem_size\<close> bytes; both views have the element type \<open>'a\<close> here, so these
  are \<open>len a\<close> and \<open>len b\<close> cells.
\<close>

definition iter_concat :: "'a Iterator \<Rightarrow> 'a Iterator \<Rightarrow> 'a Iterator option" where
  "iter_concat a b =
     (case memcpy_cells (store a) (data a) (len a) of
        None \<Rightarrow> None
      | Some xs \<Rightarrow>
          (case memcpy_cells (store b) (data b) (len b) of
             None \<Rightarrow> None
           | Some ys \<Rightarrow>
               Some \<lparr>store = xs @ ys, data = 0, len = size_t (len a + len b),
                     elem_size = elem_size a\<rparr>))"

text \<open>
  \<open>_iter_pad_ptr\<close>: the first loop copies cells of the input while \<open>_i < _it.len\<close> and
  \<open>_i < _n\<close>, the second continues from the same \<open>_i\<close> and writes the cell that
  \<open>padptr\<close> points to. \<open>iter_pad\<close> passes the address of a local copy of \<open>padval\<close>.
\<close>

function pad_copy_loop :: "'a Iterator \<Rightarrow> nat \<Rightarrow> nat \<Rightarrow> 'a list \<Rightarrow> (nat \<times> 'a list) option" where
  "pad_copy_loop it n i out =
     (if i < len it \<and> i < n
      then (case rd it i of
              None \<Rightarrow> None
            | Some x \<Rightarrow> pad_copy_loop it n (i + 1) (out @ [x]))
      else Some (i, out))"
  by pat_completeness auto
termination
  by (relation "measure (\<lambda>(it, n, i, out). len it - i)") auto

declare pad_copy_loop.simps [simp del]

function pad_fill_loop :: "nat \<Rightarrow> 'a \<Rightarrow> nat \<Rightarrow> 'a list \<Rightarrow> 'a list" where
  "pad_fill_loop n pad i out =
     (if i < n then pad_fill_loop n pad (i + 1) (out @ [pad]) else out)"
  by pat_completeness auto
termination
  by (relation "measure (\<lambda>(n, pad, i, out). n - i)") auto

declare pad_fill_loop.simps [simp del]

definition iter_pad_ptr :: "'a Iterator \<Rightarrow> nat \<Rightarrow> 'a \<Rightarrow> 'a Iterator option" where
  "iter_pad_ptr it newlen pad =
     (let n = newlen in
      case pad_copy_loop it n 0 [] of
        None \<Rightarrow> None
      | Some (i, out) \<Rightarrow>
          Some \<lparr>store = pad_fill_loop n pad i out, data = 0, len = n, elem_size = elem_size it\<rparr>)"

definition iter_pad :: "'a Iterator \<Rightarrow> nat \<Rightarrow> 'a \<Rightarrow> 'a Iterator option" where
  "iter_pad it newlen padval = (let padval' = padval in iter_pad_ptr it newlen padval')"

function repeat_loop :: "'a Iterator \<Rightarrow> nat \<Rightarrow> nat \<Rightarrow> 'a list \<Rightarrow> 'a list option" where
  "repeat_loop it t i out =
     (if i < t
      then (case memcpy_cells (store it) (data it) (len it) of
              None \<Rightarrow> None
            | Some xs \<Rightarrow> repeat_loop it t (i + 1) (out @ xs))
      else Some out)"
  by pat_completeness auto
termination
  by (relation "measure (\<lambda>(it, t, i, out). t - i)") auto

declare repeat_loop.simps [simp del]

definition iter_repeat :: "'a Iterator \<Rightarrow> nat \<Rightarrow> 'a Iterator option" where
  "iter_repeat it times' =
     (let t = times' in
      case repeat_loop it t 0 [] of
        None \<Rightarrow> None
      | Some out \<Rightarrow> Some \<lparr>store = out, data = 0, len = size_t (len it * t), elem_size = elem_size it\<rparr>)"

subsection \<open>The second iterator test of example.c\<close>

text \<open>
  Steps 1 to 7 of \<open>main\<close>: \<open>t2\<close> is reassigned by each step, and a step that fails
  (\<open>None\<close>) ends the run. \<open>int\<close> is 32 bits wide and \<open>sizeof(int)\<close> is 4.
\<close>

definition arr2 :: "32 word list" where
  "arr2 = [1, 2, 2, 3, 4]"

definition example_t2 :: "32 word Iterator option" where
  "example_t2 =
     (let t2 = to_iter arr2 4 in
      case iter_repeat t2 2 of None \<Rightarrow> None | Some t2 \<Rightarrow>
      case iter_concat t2 (to_iter arr2 4) of None \<Rightarrow> None | Some t2 \<Rightarrow>
      case iter_reverse t2 of None \<Rightarrow> None | Some t2 \<Rightarrow>
      case iter_unique t2 of None \<Rightarrow> None | Some t2 \<Rightarrow>
      case iter_pad t2 10 99 of None \<Rightarrow> None | Some t2 \<Rightarrow>
      Some (iter_slice t2 2 7))"

section \<open>The composition macros pipe and chain\<close>

text \<open>
  \<open>pipe(...)\<close> and \<open>chain(...)\<close> pick a fixed-arity macro by the number of their
  arguments: \<open>GET_PIPE_MACRO\<close> and \<open>GET_CHAIN_MACRO\<close> have eleven positional parameters
  followed by \<open>NAME\<close>, and are called with the user's arguments followed by the list of
  macro names, so \<open>NAME\<close> is the twelfth entry of that combined list. The chosen macro is
  then invoked with the user's arguments. \<open>None\<close> stands for a program that the
  preprocessor or the compiler rejects: no twelfth argument, a twelfth argument that is one
  of the user's own, or a macro invoked with a number of arguments other than its number of
  parameters.
\<close>

datatype macro_name = PIPE_STEP nat | CHAIN nat

datatype macro_arg = Given | Macro macro_name

definition GET_PIPE_MACRO :: "macro_arg list \<Rightarrow> macro_arg option" where
  "GET_PIPE_MACRO args = (if length args < 12 then None else Some (args ! 11))"

definition GET_CHAIN_MACRO :: "macro_arg list \<Rightarrow> macro_arg option" where
  "GET_CHAIN_MACRO args = (if length args < 12 then None else Some (args ! 11))"

text \<open>
  \<open>PIPE_STEP_k(init, s1, ..., sk)\<close> declares the placeholder with the value of \<open>init\<close>
  and assigns each step to it in turn. A step is a C expression in which the placeholder
  may occur, a function of the placeholder's current value \<open>p\<close>.
\<close>

definition PIPE_STEP_1 :: "'v \<Rightarrow> ('v \<Rightarrow> 'v) list \<Rightarrow> 'v option" where
  "PIPE_STEP_1 init ss =
     (case ss of
        [s1] \<Rightarrow> Some (let p = init; p = s1 p in p)
      | _ \<Rightarrow> None)"

definition PIPE_STEP_2 :: "'v \<Rightarrow> ('v \<Rightarrow> 'v) list \<Rightarrow> 'v option" where
  "PIPE_STEP_2 init ss =
     (case ss of
        [s1, s2] \<Rightarrow> Some (let p = init; p = s1 p; p = s2 p in p)
      | _ \<Rightarrow> None)"

definition PIPE_STEP_3 :: "'v \<Rightarrow> ('v \<Rightarrow> 'v) list \<Rightarrow> 'v option" where
  "PIPE_STEP_3 init ss =
     (case ss of
        [s1, s2, s3] \<Rightarrow> Some (let p = init; p = s1 p; p = s2 p; p = s3 p in p)
      | _ \<Rightarrow> None)"

definition PIPE_STEP_4 :: "'v \<Rightarrow> ('v \<Rightarrow> 'v) list \<Rightarrow> 'v option" where
  "PIPE_STEP_4 init ss =
     (case ss of
        [s1, s2, s3, s4] \<Rightarrow> Some (let p = init; p = s1 p; p = s2 p; p = s3 p; p = s4 p in p)
      | _ \<Rightarrow> None)"

definition PIPE_STEP_5 :: "'v \<Rightarrow> ('v \<Rightarrow> 'v) list \<Rightarrow> 'v option" where
  "PIPE_STEP_5 init ss =
     (case ss of
        [s1, s2, s3, s4, s5] \<Rightarrow> Some (let p = init; p = s1 p; p = s2 p; p = s3 p; p = s4 p; p = s5 p in p)
      | _ \<Rightarrow> None)"

definition PIPE_STEP_6 :: "'v \<Rightarrow> ('v \<Rightarrow> 'v) list \<Rightarrow> 'v option" where
  "PIPE_STEP_6 init ss =
     (case ss of
        [s1, s2, s3, s4, s5, s6] \<Rightarrow> Some (let p = init; p = s1 p; p = s2 p; p = s3 p; p = s4 p; p = s5 p; p = s6 p in p)
      | _ \<Rightarrow> None)"

definition PIPE_STEP_7 :: "'v \<Rightarrow> ('v \<Rightarrow> 'v) list \<Rightarrow> 'v option" where
  "PIPE_STEP_7 init ss =
     (case ss of
        [s1, s2, s3, s4, s5, s6, s7] \<Rightarrow> Some (let p = init; p = s1 p; p = s2 p; p = s3 p; p = s4 p; p = s5 p; p = s6 p; p = s7 p in p)
      | _ \<Rightarrow> None)"

definition PIPE_STEP_8 :: "'v \<Rightarrow> ('v \<Rightarrow> 'v) list \<Rightarrow> 'v option" where
  "PIPE_STEP_8 init ss =
     (case ss of
        [s1, s2, s3, s4, s5, s6, s7, s8] \<Rightarrow> Some (let p = init; p = s1 p; p = s2 p; p = s3 p; p = s4 p; p = s5 p; p = s6 p; p = s7 p; p = s8 p in p)
      | _ \<Rightarrow> None)"

definition PIPE_STEP_9 :: "'v \<Rightarrow> ('v \<Rightarrow> 'v) list \<Rightarrow> 'v option" where
  "PIPE_STEP_9 init ss =
     (case ss of
        [s1, s2, s3, s4, s5, s6, s7, s8, s9] \<Rightarrow> Some (let p = init; p = s1 p; p = s2 p; p = s3 p; p = s4 p; p = s5 p; p = s6 p; p = s7 p; p = s8 p; p = s9 p in p)
      | _ \<Rightarrow> None)"

definition PIPE_STEP_10 :: "'v \<Rightarrow> ('v \<Rightarrow> 'v) list \<Rightarrow> 'v option" where
  "PIPE_STEP_10 init ss =
     (case ss of
        [s1, s2, s3, s4, s5, s6, s7, s8, s9, s10] \<Rightarrow> Some (let p = init; p = s1 p; p = s2 p; p = s3 p; p = s4 p; p = s5 p; p = s6 p; p = s7 p; p = s8 p; p = s9 p; p = s10 p in p)
      | _ \<Rightarrow> None)"

definition expand_pipe :: "macro_arg \<Rightarrow> 'v \<Rightarrow> ('v \<Rightarrow> 'v) list \<Rightarrow> 'v option" where
  "expand_pipe m init ss =
     (if m = Macro (PIPE_STEP 1) then PIPE_STEP_1 init ss else
      if m = Macro (PIPE_STEP 2) then PIPE_STEP_2 init ss else
      if m = Macro (PIPE_STEP 3) then PIPE_STEP_3 init ss else
      if m = Macro (PIPE_STEP 4) then PIPE_STEP_4 init ss else
      if m = Macro (PIPE_STEP 5) then PIPE_STEP_5 init ss else
      if m = Macro (PIPE_STEP 6) then PIPE_STEP_6 init ss else
      if m = Macro (PIPE_STEP 7) then PIPE_STEP_7 init ss else
      if m = Macro (PIPE_STEP 8) then PIPE_STEP_8 init ss else
      if m = Macro (PIPE_STEP 9) then PIPE_STEP_9 init ss else
      if m = Macro (PIPE_STEP 10) then PIPE_STEP_10 init ss
      else None)"

definition pipe :: "'v \<Rightarrow> ('v \<Rightarrow> 'v) list \<Rightarrow> 'v option" where
  "pipe init ss =
     (case GET_PIPE_MACRO (replicate (Suc (length ss)) Given @
             map Macro [PIPE_STEP 10, PIPE_STEP 9, PIPE_STEP 8, PIPE_STEP 7, PIPE_STEP 6,
                        PIPE_STEP 5, PIPE_STEP 4, PIPE_STEP 3, PIPE_STEP 2, PIPE_STEP 1]) of
        None \<Rightarrow> None
      | Some m \<Rightarrow> expand_pipe m init ss)"

text \<open>
  The \<open>CHAIN_k\<close> macros nest calls of unary functions. The functions of a chain may have
  different C types; they are functions on one type \<open>'v\<close> of values here. \<open>CHAIN_4\<close>
  is written with five parameters in flow.h, every other \<open>CHAIN_k\<close> with \<open>k\<close>.
\<close>

definition CHAIN_2 :: "'v \<Rightarrow> ('v \<Rightarrow> 'v) list \<Rightarrow> 'v option" where
  "CHAIN_2 input fs =
     (case fs of
        [f1] \<Rightarrow> Some (f1 input)
      | _ \<Rightarrow> None)"

definition CHAIN_3 :: "'v \<Rightarrow> ('v \<Rightarrow> 'v) list \<Rightarrow> 'v option" where
  "CHAIN_3 input fs =
     (case fs of
        [f1, f2] \<Rightarrow> Some (f2 (f1 input))
      | _ \<Rightarrow> None)"

definition CHAIN_4 :: "'v \<Rightarrow> ('v \<Rightarrow> 'v) list \<Rightarrow> 'v option" where
  "CHAIN_4 input fs =
     (case fs of
        [f1, f2, f3, f4] \<Rightarrow> Some (f4 (f3 (f2 (f1 input))))
      | _ \<Rightarrow> None)"

definition CHAIN_5 :: "'v \<Rightarrow> ('v \<Rightarrow> 'v) list \<Rightarrow> 'v option" where
  "CHAIN_5 input fs =
     (case fs of
        [f1, f2, f3, f4] \<Rightarrow> Some (f4 (f3 (f2 (f1 input))))
      | _ \<Rightarrow> None)"

definition CHAIN_6 :: "'v \<Rightarrow> ('v \<Rightarrow> 'v) list \<Rightarrow> 'v option" where
  "CHAIN_6 input fs =
     (case fs of
        [f1, f2, f3, f4, f5] \<Rightarrow> Some (f5 (f4 (f3 (f2 (f1 input)))))
      | _ \<Rightarrow> None)"

definition CHAIN_7 :: "'v \<Rightarrow> ('v \<Rightarrow> 'v) list \<Rightarrow> 'v option" where
  "CHAIN_7 input fs =
     (case fs of
        [f1, f2, f3, f4, f5, f6] \<Rightarrow> Some (f6 (f5 (f4 (f3 (f2 (f1 input))))))
      | _ \<Rightarrow> None)"

definition CHAIN_8 :: "'v \<Rightarrow> ('v \<Rightarrow> 'v) list \<Rightarrow> 'v option" where
  "CHAIN_8 input fs =
     (case fs of
        [f1, f2, f3, f4, f5, f6, f7] \<Rightarrow> Some (f7 (f6 (f5 (f4 (f3 (f2 (f1 input)))))))
      | _ \<Rightarrow> None)"

definition CHAIN_9 :: "'v \<Rightarrow> ('v \<Rightarrow> 'v) list \<Rightarrow> 'v option" where
  "CHAIN_9 input fs =
     (case fs of
        [f1, f2, f3, f4, f5, f6, f7, f8] \<Rightarrow> Some (f8 (f7 (f6 (f5 (f4 (f3 (f2 (f1 input))))))))
      | _ \<Rightarrow> None)"

definition CHAIN_10 :: "'v \<Rightarrow> ('v \<Rightarrow> 'v) list \<Rightarrow> 'v option" where
  "CHAIN_10 input fs =
     (case fs of
        [f1, f2, f3, f4, f5, f6, f7, f8, f9] \<Rightarrow> Some (f9 (f8 (f7 (f6 (f5 (f4 (f3 (f2 (f1 input)))))))))
      | _ \<Rightarrow> None)"

definition expand_chain :: "macro_arg \<Rightarrow> 'v \<Rightarrow> ('v \<Rightarrow> 'v) list \<Rightarrow> 'v option" where
  "expand_chain m input fs =
     (if m = Macro (CHAIN 2) then CHAIN_2 input fs else
      if m = Macro (CHAIN 3) then CHAIN_3 input fs else
      if m = Macro (CHAIN 4) then CHAIN_4 input fs else
      if m = Macro (CHAIN 5) then CHAIN_5 input fs else
      if m = Macro (CHAIN 6) then CHAIN_6 input fs else
      if m = Macro (CHAIN 7) then CHAIN_7 input fs else
      if m = Macro (CHAIN 8) then CHAIN_8 input fs else
      if m = Macro (CHAIN 9) then CHAIN_9 input fs else
      if m = Macro (CHAIN 10) then CHAIN_10 input fs
      else None)"

definition chain :: "'v \<Rightarrow> ('v \<Rightarrow> 'v) list \<Rightarrow> 'v option" where
  "chain input fs =
     (case GET_CHAIN_MACRO (replicate (Suc (length fs)) Given @
             map Macro [CHAIN 10, CHAIN 9, CHAIN 8, CHAIN 7, CHAIN 6,
                        CHAIN 5, CHAIN 4, CHAIN 3, CHAIN 2]) of
        None \<Rightarrow> None
      | Some m \<Rightarrow> expand_chain m input fs)"

subsection \<open>The step functions of example.c\<close>

text \<open>\<open>int\<close> is 32 bits wide; \<open>sint\<close> reads a value as the signed number it stands for.\<close>

definition add_int :: "32 word \<Rightarrow> 32 word \<Rightarrow> 32 word" where
  "add_int a b = a + b"

definition mul_int :: "32 word \<Rightarrow> 32 word \<Rightarrow> 32 word" where
  "mul_int a b = a * b"

definition sub_int :: "32 word \<Rightarrow> 32 word \<Rightarrow> 32 word" where
  "sub_int a b = a - b"

section \<open>Basic facts about views\<close>

lemma length_elems: "view_ok it \<Longrightarrow> length (elems it) = len it"
  by (auto simp: view_ok_def elems_def)

lemma rd_elems: "view_ok it \<Longrightarrow> i < len it \<Longrightarrow> rd it i = Some (elems it ! i)"
  by (simp add: view_ok_def rd_def elems_def)

lemma view_ok_to_iter: "length arr < 2 ^ 63 \<Longrightarrow> view_ok (to_iter arr sz)"
  by (simp add: view_ok_def to_iter_def)

lemma elems_to_iter: "elems (to_iter arr sz) = arr"
  by (simp add: elems_def to_iter_def)

section \<open>Claims\<close>

text \<open>
  C5. \<open>iter_slice\<close> clamps \<open>start\<close> and \<open>stop\<close> to the length of the view and always
  returns a view (there is no error result). The result borrows the store of \<open>v\<close>,
  is empty when the clamped end is not beyond the clamped start, and otherwise has
  \<open>min stop len - min start len\<close> cells; cell \<open>i\<close> of the result is cell
  \<open>min start len + i\<close> of \<open>v\<close>, an index below \<open>len v\<close>, so nothing outside \<open>v\<close>
  is reachable through the result. On a valid view the result is valid and each of its
  cells reads as the corresponding element of \<open>v\<close>.
\<close>

theorem iter_slice_clamps:
  "let s = min start (len v); e = min stop (len v); r = iter_slice v start stop
   in store r = store v \<and> elem_size r = elem_size v \<and> data r = data v + s
       \<and> (e \<le> s \<longrightarrow> len r = 0)
       \<and> (s < e \<longrightarrow> len r = e - s)
       \<and> (\<forall>i < len r. s + i < len v \<and> rd r i = rd v (s + i))
       \<and> (view_ok v \<longrightarrow> view_ok r \<and> (\<forall>i < len r. rd r i = Some (elems v ! (s + i))))"
proof -
  define s where "s = min start (len v)"
  define e where "e = min stop (len v)"
  define r where "r = iter_slice v start stop"
  have s: "s = (if start < len v then start else len v)"
    and e: "e = (if stop < len v then stop else len v)"
    by (simp_all add: s_def e_def min_def)
  have r: "r = \<lparr>store = store v, data = data v + s,
               len = (if e > s then e - s else 0), elem_size = elem_size v\<rparr>"
    by (simp add: r_def iter_slice_def Let_def s e)
  have bnd: "s + i < len v" if "i < len r" for i
    using that by (auto simp: r s_def e_def split: if_splits)
  have eq: "rd r i = rd v (s + i)" for i
    by (simp add: r rd_def add.assoc)
  have ok: "view_ok r" if "view_ok v"
    using that by (auto simp: r view_ok_def s_def e_def)
  have some: "rd r i = Some (elems v ! (s + i))" if "view_ok v" "i < len r" for i
    using rd_elems [OF that(1) bnd [OF that(2)]] eq by simp
  have main: "store r = store v \<and> elem_size r = elem_size v \<and> data r = data v + s
       \<and> (e \<le> s \<longrightarrow> len r = 0)
       \<and> (s < e \<longrightarrow> len r = e - s)
       \<and> (\<forall>i < len r. s + i < len v \<and> rd r i = rd v (s + i))
       \<and> (view_ok v \<longrightarrow> view_ok r \<and> (\<forall>i < len r. rd r i = Some (elems v ! (s + i))))"
    using bnd eq ok some by (simp add: r)
  show ?thesis
    unfolding Let_def using main [unfolded s_def e_def r_def] .
qed

theorem iter_slice_clamps_witness:
  "len (iter_slice (to_iter [10, 20, 30, 40 :: int] 4) 1 9) = 3
   \<and> rd (iter_slice (to_iter [10, 20, 30, 40 :: int] 4) 1 9) 2 = Some 40
   \<and> len (iter_slice (to_iter [10, 20, 30, 40 :: int] 4) 3 2) = 0
   \<and> view_ok (iter_slice (to_iter [10, 20, 30, 40 :: int] 4) 1 9)"
  using iter_slice_clamps [of 1 "to_iter [10, 20, 30, 40 :: int] 4" 9]
    iter_slice_clamps [of 3 "to_iter [10, 20, 30, 40 :: int] 4" 2]
  by (simp add: iter_slice_def to_iter_def rd_def view_ok_def)


subsection \<open>The loops on valid views\<close>

lemma reverse_loop_eq:
  "view_ok it \<Longrightarrow> i \<le> len it \<Longrightarrow>
   reverse_loop it i out = Some (out @ rev (take (len it - i) (elems it)))"
proof (induction "len it - i" arbitrary: i out)
  case 0
  then show ?case by (simp add: reverse_loop.simps)
next
  case (Suc k)
  then have lt: "i < len it" and k: "k = len it - (i + 1)" by simp_all
  let ?j = "len it - 1 - i"
  have j: "?j < len it" using lt by simp
  have r: "rd it ?j = Some (elems it ! ?j)"
    by (rule rd_elems [OF Suc.prems(1) j])
  have tk: "take (len it - i) (elems it) = take ?j (elems it) @ [elems it ! ?j]"
  proof -
    have "len it - i = Suc ?j" using lt by simp
    then show ?thesis
      using j by (simp add: take_Suc_conv_app_nth length_elems [OF Suc.prems(1)])
  qed
  have "reverse_loop it i out = reverse_loop it (i + 1) (out @ [elems it ! ?j])"
    using lt r by (subst reverse_loop.simps) simp
  also have "\<dots> = Some ((out @ [elems it ! ?j]) @ rev (take (len it - (i + 1)) (elems it)))"
    using Suc.hyps(1) [OF k Suc.prems(1)] lt by simp
  also have "len it - (i + 1) = ?j" by simp
  finally show ?case by (simp add: tk)
qed

lemma iter_reverse_eq:
  assumes "view_ok it"
  shows "iter_reverse it =
           Some \<lparr>store = rev (elems it), data = 0, len = len it, elem_size = elem_size it\<rparr>"
  using reverse_loop_eq [OF assms, of 0 "[]"] length_elems [OF assms]
  by (simp add: iter_reverse_def)

lemma foldl_loop_eq:
  "view_ok it \<Longrightarrow> i \<le> len it \<Longrightarrow>
   foldl_loop it f i acc = Some (foldl f acc (drop i (elems it)))"
proof (induction "len it - i" arbitrary: i acc)
  case 0
  then show ?case by (simp add: foldl_loop.simps length_elems)
next
  case (Suc k)
  then have lt: "i < len it" and k: "k = len it - (i + 1)" by simp_all
  have r: "rd it i = Some (elems it ! i)"
    by (rule rd_elems [OF Suc.prems(1) lt])
  have dr: "drop i (elems it) = elems it ! i # drop (i + 1) (elems it)"
    using lt by (simp add: Cons_nth_drop_Suc length_elems [OF Suc.prems(1)])
  have "foldl_loop it f i acc = foldl_loop it f (i + 1) (f acc (elems it ! i))"
    using lt r by (subst foldl_loop.simps) simp
  also have "\<dots> = Some (foldl f (f acc (elems it ! i)) (drop (i + 1) (elems it)))"
    using Suc.hyps(1) [OF k Suc.prems(1)] lt by simp
  finally show ?case by (simp add: dr)
qed

lemma foldr_loop_eq:
  "view_ok it \<Longrightarrow> - 1 \<le> i \<Longrightarrow> i < int (len it) \<Longrightarrow>
   foldr_loop it f i acc = Some (foldl f acc (rev (take (nat (i + 1)) (elems it))))"
proof (induction "nat (i + 1)" arbitrary: i acc)
  case 0
  then have "i = - 1" by simp
  then show ?case by (simp add: foldr_loop.simps)
next
  case (Suc k)
  then have ge: "0 \<le> i" and k: "k = nat (i - 1 + 1)" by simp_all
  have lt: "nat i < len it" using Suc.prems ge by simp
  have r: "rd it (nat i) = Some (elems it ! nat i)"
    by (rule rd_elems [OF Suc.prems(1) lt])
  have tk: "take (nat (i + 1)) (elems it) = take (nat i) (elems it) @ [elems it ! nat i]"
  proof -
    have "nat (i + 1) = Suc (nat i)" using ge by simp
    then show ?thesis
      using lt by (simp add: take_Suc_conv_app_nth length_elems [OF Suc.prems(1)])
  qed
  have "foldr_loop it f i acc = foldr_loop it f (i - 1) (f acc (elems it ! nat i))"
    using ge r by (subst foldr_loop.simps) simp
  also have "\<dots> = Some (foldl f (f acc (elems it ! nat i)) (rev (take (nat (i - 1 + 1)) (elems it))))"
    using Suc.hyps(1) [OF k Suc.prems(1)] ge Suc.prems(3) by simp
  finally show ?case by (simp add: tk)
qed

lemma ptrdiff_t_small: "n < 2 ^ 63 \<Longrightarrow> ptrdiff_t n = int n"
  by (simp add: ptrdiff_t_def size_t_def Let_def)

lemma len_small: "view_ok it \<Longrightarrow> len it < 2 ^ 63"
  by (simp add: view_ok_def)

text \<open>
  C3. On every valid view, \<open>iter_foldr\<close> returns what \<open>iter_foldl\<close> returns on the
  reversed view, and that is the left accumulation \<open>acc := f acc x\<close> over the elements
  taken from index \<open>len - 1\<close> down to \<open>0\<close>.
\<close>

theorem iter_foldr_is_foldl_reverse:
  assumes "view_ok v"
  shows "iter_foldr v init f = Option.bind (iter_reverse v) (\<lambda>r. iter_foldl r init f)
       \<and> iter_foldr v init f = Some (foldl f init (rev (elems v)))"
proof -
  let ?r = "\<lparr>store = rev (elems v), data = 0, len = len v, elem_size = elem_size v\<rparr>"
  have n: "len v < 2 ^ 63" by (rule len_small [OF assms])
  have okr: "view_ok ?r"
    using assms length_elems [OF assms] by (simp add: view_ok_def)
  have er: "elems ?r = rev (elems v)"
    using length_elems [OF assms] by (simp add: elems_def)
  have right: "iter_foldr v init f = Some (foldl f init (rev (elems v)))"
    using foldr_loop_eq [OF assms, of "int (len v) - 1" f init] length_elems [OF assms]
    by (simp add: iter_foldr_def ptrdiff_t_small [OF n])
  have left: "iter_foldl ?r init f = Some (foldl f init (rev (elems v)))"
    using foldl_loop_eq [OF okr, of 0 f init] by (simp add: iter_foldl_def er)
  show ?thesis
    by (simp add: right iter_reverse_eq [OF assms] left)
qed

theorem iter_foldr_is_foldl_reverse_witness:
  "view_ok (to_iter [10, 20, 30, 40 :: int] 4)
   \<and> iter_foldr (to_iter [10, 20, 30, 40 :: int] 4) 0 (\<lambda>acc x. x - acc) = Some (- 20)
   \<and> Option.bind (iter_reverse (to_iter [10, 20, 30, 40 :: int] 4))
        (\<lambda>r. iter_foldl r 0 (\<lambda>acc x. x - acc)) = Some (- 20)"
proof -
  have ok: "view_ok (to_iter [10, 20, 30, 40 :: int] 4)"
    by (simp add: view_ok_def to_iter_def)
  note th = iter_foldr_is_foldl_reverse [OF ok, of 0 "\<lambda>acc x. x - acc"]
  have a: "iter_foldr (to_iter [10, 20, 30, 40 :: int] 4) 0 (\<lambda>acc x. x - acc) = Some (- 20)"
    using th [THEN conjunct2] by (simp add: elems_to_iter)
  have b: "Option.bind (iter_reverse (to_iter [10, 20, 30, 40 :: int] 4))
        (\<lambda>r. iter_foldl r 0 (\<lambda>acc x. x - acc)) = Some (- 20)"
    using th [THEN conjunct1] a by simp
  show ?thesis using ok a b by simp
qed


lemma drop_step:
  "view_ok it \<Longrightarrow> i < len it \<Longrightarrow> drop i (elems it) = elems it ! i # drop (i + 1) (elems it)"
  by (simp add: Cons_nth_drop_Suc length_elems)

lemma partition_loop_eq:
  "view_ok it \<Longrightarrow> i \<le> len it \<Longrightarrow>
   partition_loop it pred i ys ns =
     Some (ys @ filter pred (drop i (elems it)), ns @ filter (\<lambda>x. \<not> pred x) (drop i (elems it)))"
proof (induction "len it - i" arbitrary: i ys ns)
  case 0
  then show ?case by (simp add: partition_loop.simps length_elems)
next
  case (Suc k)
  then have lt: "i < len it" and k: "k = len it - (i + 1)" by simp_all
  let ?x = "elems it ! i"
  have r: "rd it i = Some ?x"
    by (rule rd_elems [OF Suc.prems(1) lt])
  note dr = drop_step [OF Suc.prems(1) lt]
  note ih = Suc.hyps(1) [OF k Suc.prems(1)]
  show ?case
  proof (cases "pred ?x")
    case True
    have "partition_loop it pred i ys ns = partition_loop it pred (i + 1) (ys @ [?x]) ns"
      using lt r True by (subst partition_loop.simps) simp
    then show ?thesis
      using ih [of "ys @ [?x]" ns] lt True by (simp add: dr)
  next
    case False
    have "partition_loop it pred i ys ns = partition_loop it pred (i + 1) ys (ns @ [?x])"
      using lt r False by (subst partition_loop.simps) simp
    then show ?thesis
      using ih [of ys "ns @ [?x]"] lt False by (simp add: dr)
  qed
qed

lemma any_loop_eq:
  "view_ok it \<Longrightarrow> i \<le> len it \<Longrightarrow>
   any_loop it pred i = Some (\<exists>x \<in> set (drop i (elems it)). pred x)"
proof (induction "len it - i" arbitrary: i)
  case 0
  then show ?case by (simp add: any_loop.simps length_elems)
next
  case (Suc k)
  then have lt: "i < len it" and k: "k = len it - (i + 1)" by simp_all
  have r: "rd it i = Some (elems it ! i)"
    by (rule rd_elems [OF Suc.prems(1) lt])
  note dr = drop_step [OF Suc.prems(1) lt]
  have "any_loop it pred i =
          (if pred (elems it ! i) then Some True else any_loop it pred (i + 1))"
    using lt r by (subst any_loop.simps) simp
  then show ?case
    using Suc.hyps(1) [OF k Suc.prems(1)] lt by (simp add: dr)
qed

lemma all_loop_eq:
  "view_ok it \<Longrightarrow> i \<le> len it \<Longrightarrow>
   all_loop it pred i = Some (\<forall>x \<in> set (drop i (elems it)). pred x)"
proof (induction "len it - i" arbitrary: i)
  case 0
  then show ?case by (simp add: all_loop.simps length_elems)
next
  case (Suc k)
  then have lt: "i < len it" and k: "k = len it - (i + 1)" by simp_all
  have r: "rd it i = Some (elems it ! i)"
    by (rule rd_elems [OF Suc.prems(1) lt])
  note dr = drop_step [OF Suc.prems(1) lt]
  have "all_loop it pred i =
          (if \<not> pred (elems it ! i) then Some False else all_loop it pred (i + 1))"
    using lt r by (subst all_loop.simps) simp
  then show ?case
    using Suc.hyps(1) [OF k Suc.prems(1)] lt by (simp add: dr)
qed

text \<open>
  C4. On every valid view \<open>iter_partition\<close> returns two valid views. \<open>yes\<close> holds the
  elements that satisfy the predicate and \<open>no\<close> those that do not, each in the order of
  the input (so an element is in exactly one of them); the two lengths add up to the
  length of the input and the two multisets to its multiset.
\<close>

theorem iter_partition_splits:
  assumes "view_ok v"
  shows "\<exists>r. iter_partition v tsz p = Some r
       \<and> view_ok (yes r) \<and> view_ok (no r)
       \<and> elems (yes r) = filter p (elems v)
       \<and> elems (no r) = filter (\<lambda>x. \<not> p x) (elems v)
       \<and> len (yes r) + len (no r) = len v
       \<and> mset (elems (yes r)) + mset (elems (no r)) = mset (elems v)
       \<and> (\<forall>x \<in> set (elems v). (x \<in> set (elems (yes r))) \<noteq> (x \<in> set (elems (no r))))"
proof -
  let ?ys = "filter p (elems v)" and ?ns = "filter (\<lambda>x. \<not> p x) (elems v)"
  let ?r = "\<lparr>yes = \<lparr>store = ?ys, data = 0, len = length ?ys, elem_size = tsz\<rparr>,
             no = \<lparr>store = ?ns, data = 0, len = length ?ns, elem_size = tsz\<rparr>\<rparr>"
  have n: "length (elems v) < 2 ^ 63"
    using len_small [OF assms] length_elems [OF assms] by simp
  have res: "iter_partition v tsz p = Some ?r"
    using partition_loop_eq [OF assms, of 0 p "[]" "[]"] by (simp add: iter_partition_def)
  have ly: "length ?ys < 2 ^ 63"
    by (rule le_less_trans [OF length_filter_le n])
  have ln: "length ?ns < 2 ^ 63"
    by (rule le_less_trans [OF length_filter_le n])
  have oky: "view_ok (yes ?r)" using ly by (simp add: view_ok_def)
  have okn: "view_ok (no ?r)" using ln by (simp add: view_ok_def)
  have ey: "elems (yes ?r) = ?ys" by (simp add: elems_def)
  have en: "elems (no ?r) = ?ns" by (simp add: elems_def)
  have sum: "len (yes ?r) + len (no ?r) = len v"
    using sum_length_filter_compl [of p "elems v"] length_elems [OF assms] by simp
  have ms: "mset ?ys + mset ?ns = mset (elems v)"
    by (simp add: mset_filter)
  have one: "\<forall>x \<in> set (elems v). (x \<in> set ?ys) \<noteq> (x \<in> set ?ns)"
    by auto
  show ?thesis
    using res oky okn ey en sum ms one by (intro exI [of _ ?r]) (simp only: simp_thms)
qed

theorem iter_partition_splits_witness:
  "view_ok (to_iter [10, 20, 30, 40 :: int] 4)
   \<and> (\<exists>r. iter_partition (to_iter [10, 20, 30, 40 :: int] 4) 4 (\<lambda>x. x mod 3 = 0) = Some r
        \<and> elems (yes r) = [30] \<and> elems (no r) = [10, 20, 40])"
proof -
  have ok: "view_ok (to_iter [10, 20, 30, 40 :: int] 4)"
    by (simp add: view_ok_def to_iter_def)
  from iter_partition_splits [OF ok, of 4 "\<lambda>x. x mod 3 = 0"]
  obtain r where "iter_partition (to_iter [10, 20, 30, 40 :: int] 4) 4 (\<lambda>x. x mod 3 = 0) = Some r"
    and "elems (yes r) = filter (\<lambda>x. x mod 3 = 0) (elems (to_iter [10, 20, 30, 40 :: int] 4))"
    and "elems (no r) = filter (\<lambda>x. \<not> x mod 3 = 0) (elems (to_iter [10, 20, 30, 40 :: int] 4))"
    by blast
  then show ?thesis
    using ok by (simp add: elems_to_iter)
qed

text \<open>
  C8. On every valid view \<open>iter_any\<close> returns true exactly when some element satisfies
  the predicate and \<open>iter_all\<close> exactly when every element does; on a view of length
  \<open>0\<close> they return false and true.
\<close>

theorem iter_any_all_spec:
  "(view_ok v \<longrightarrow> iter_any v p = Some (\<exists>x \<in> set (elems v). p x)
                \<and> iter_all v p = Some (\<forall>x \<in> set (elems v). p x))
   \<and> (len v = 0 \<longrightarrow> iter_any v p = Some False \<and> iter_all v p = Some True)"
proof -
  have a: "iter_any v p = Some (\<exists>x \<in> set (elems v). p x)" if "view_ok v"
    using any_loop_eq [OF that, of 0 p] by (simp add: iter_any_def)
  have b: "iter_all v p = Some (\<forall>x \<in> set (elems v). p x)" if "view_ok v"
    using all_loop_eq [OF that, of 0 p] by (simp add: iter_all_def)
  have c: "iter_any v p = Some False \<and> iter_all v p = Some True" if "len v = 0"
    using that by (simp add: iter_any_def iter_all_def any_loop.simps all_loop.simps)
  show ?thesis using a b c by blast
qed

theorem iter_any_all_spec_witness:
  "view_ok (to_iter [10, 20, 30, 40 :: int] 4)
   \<and> iter_any (to_iter [10, 20, 30, 40 :: int] 4) (\<lambda>x. x = 20) = Some True
   \<and> iter_all (to_iter [10, 20, 30, 40 :: int] 4) (\<lambda>x. x > 10) = Some False
   \<and> len (to_iter ([] :: int list) 4) = 0
   \<and> iter_any (to_iter ([] :: int list) 4) (\<lambda>x. x = 20) = Some False
   \<and> iter_all (to_iter ([] :: int list) 4) (\<lambda>x. x = 20) = Some True"
proof -
  have ok: "view_ok (to_iter [10, 20, 30, 40 :: int] 4)"
    by (simp add: view_ok_def to_iter_def)
  have e: "len (to_iter ([] :: int list) 4) = 0"
    by (simp add: to_iter_def)
  show ?thesis
    using ok e
      iter_any_all_spec [of "to_iter [10, 20, 30, 40 :: int] 4" "\<lambda>x. x = 20"]
      iter_any_all_spec [of "to_iter [10, 20, 30, 40 :: int] 4" "\<lambda>x. x > 10"]
      iter_any_all_spec [of "to_iter ([] :: int list) 4" "\<lambda>x. x = 20"]
    by (simp add: elems_to_iter)
qed



subsection \<open>unique: the loop and the list it computes\<close>

lemma unique_find_eq: "unique_find x out j = (x \<in> set (drop j out))"
proof (induction "length out - j" arbitrary: j)
  case 0
  then show ?case by (simp add: unique_find.simps)
next
  case (Suc k)
  then have lt: "j < length out" and k: "k = length out - (j + 1)" by simp_all
  have dr: "drop j out = out ! j # drop (j + 1) out"
    using lt by (simp add: Cons_nth_drop_Suc)
  have "unique_find x out j = (if x = out ! j then True else unique_find x out (j + 1))"
    using lt by (subst unique_find.simps) simp
  then show ?case
    using Suc.hyps(1) [OF k] by (auto simp: dr)
qed

lemma unique_loop_eq:
  "view_ok it \<Longrightarrow> i \<le> len it \<Longrightarrow>
   unique_loop it i out =
     Some (fold (\<lambda>x out. if x \<in> set out then out else out @ [x]) (drop i (elems it)) out)"
proof (induction "len it - i" arbitrary: i out)
  case 0
  then show ?case by (simp add: unique_loop.simps length_elems)
next
  case (Suc k)
  then have lt: "i < len it" and k: "k = len it - (i + 1)" by simp_all
  let ?x = "elems it ! i"
  have r: "rd it i = Some ?x"
    by (rule rd_elems [OF Suc.prems(1) lt])
  note dr = drop_step [OF Suc.prems(1) lt]
  note ih = Suc.hyps(1) [OF k Suc.prems(1)]
  have "unique_loop it i out =
          unique_loop it (i + 1) (if ?x \<in> set out then out else out @ [?x])"
    using lt r by (subst unique_loop.simps) (simp add: unique_find_eq)
  then show ?case
    using ih [of "if ?x \<in> set out then out else out @ [?x]"] lt by (simp add: dr)
qed

lemma fold_ins_set:
  "set (fold (\<lambda>x out. if x \<in> set out then out else out @ [x]) xs out) = set out \<union> set xs"
  by (induction xs arbitrary: out) auto

lemma fold_ins_distinct:
  "distinct out \<Longrightarrow> distinct (fold (\<lambda>x out. if x \<in> set out then out else out @ [x]) xs out)"
  by (induction xs arbitrary: out) auto

lemma fold_ins_first:
  "fold (\<lambda>x out. if x \<in> set out then out else out @ [x]) xs out =
     out @ map (\<lambda>k. xs ! k) (filter (\<lambda>k. xs ! k \<notin> set out \<union> set (take k xs)) [0..<length xs])"
proof (induction xs arbitrary: out)
  case Nil
  then show ?case by simp
next
  case (Cons x xs)
  let ?ins = "\<lambda>x out. if x \<in> set out then out else out @ [x]"
  let ?keep = "\<lambda>out ys k. ys ! k \<notin> set out \<union> set (take k ys)"
  have up: "[0..<length (x # xs)] = 0 # map Suc [0..<length xs]"
    by (simp add: upt_conv_Cons map_Suc_upt del: upt_Suc)
  have tl: "map (\<lambda>k. (x # xs) ! k) (filter (?keep out (x # xs)) (map Suc [0..<length xs]))
          = map (\<lambda>k. xs ! k) (filter (?keep (out @ [x]) xs) [0..<length xs])"
  proof -
    have f: "(\<lambda>k. (x # xs) ! k) \<circ> Suc = (\<lambda>k. xs ! k)"
      by (rule ext) simp
    have g: "?keep out (x # xs) \<circ> Suc = ?keep (out @ [x]) xs"
      by (rule ext) auto
    have "map (\<lambda>k. (x # xs) ! k) (filter (?keep out (x # xs)) (map Suc [0..<length xs]))
        = map ((\<lambda>k. (x # xs) ! k) \<circ> Suc) (filter (?keep out (x # xs) \<circ> Suc) [0..<length xs])"
      by (simp only: filter_map map_map)
    then show ?thesis by (simp only: f g)
  qed
  have hd: "filter (?keep out (x # xs)) [0..<length (x # xs)]
          = (if x \<in> set out then [] else [0]) @ filter (?keep out (x # xs)) (map Suc [0..<length xs])"
    by (simp only: up filter.simps) simp
  have "fold ?ins (x # xs) out = fold ?ins xs (?ins x out)" by simp
  also have "\<dots> = ?ins x out @ map (\<lambda>k. xs ! k) (filter (?keep (?ins x out) xs) [0..<length xs])"
    by (rule Cons.IH)
  also have "\<dots> = out @ map (\<lambda>k. (x # xs) ! k) (filter (?keep out (x # xs)) [0..<length (x # xs)])"
  proof (cases "x \<in> set out")
    case True
    then have same: "?keep (out @ [x]) xs = ?keep out xs" by auto
    show ?thesis
      using True by (simp only: hd map_append tl same) simp
  next
    case False
    show ?thesis
      using False by (simp only: hd map_append tl) simp
  qed
  finally show ?case .
qed

lemma fold_ins_fixed:
  "distinct (out @ ys) \<Longrightarrow>
   fold (\<lambda>x out. if x \<in> set out then out else out @ [x]) ys out = out @ ys"
  by (induction ys arbitrary: out) auto

lemma iter_unique_eq:
  assumes "view_ok it"
  shows "iter_unique it =
           Some \<lparr>store = fold (\<lambda>x out. if x \<in> set out then out else out @ [x]) (elems it) [],
                 data = 0,
                 len = length (fold (\<lambda>x out. if x \<in> set out then out else out @ [x]) (elems it) []),
                 elem_size = elem_size it\<rparr>"
  using unique_loop_eq [OF assms, of 0 "[]"] by (simp add: iter_unique_def)

lemma distinct_length_le:
  assumes "distinct ys" and "set ys \<subseteq> set xs"
  shows "length ys \<le> length xs"
proof -
  have "length ys = card (set ys)"
    using distinct_card [OF assms(1)] by simp
  also have "\<dots> \<le> card (set xs)"
    by (rule card_mono [OF _ assms(2)]) simp
  also have "\<dots> \<le> length xs"
    by (rule card_length)
  finally show ?thesis .
qed


lemma iter_unique_view:
  assumes "view_ok it"
  obtains u where "iter_unique it = Some u" and "view_ok u"
    and "elems u = fold (\<lambda>x out. if x \<in> set out then out else out @ [x]) (elems it) []"
    and "len u = length (elems u)"
proof -
  let ?out = "fold (\<lambda>x out. if x \<in> set out then out else out @ [x]) (elems it) []"
  let ?u = "\<lparr>store = ?out, data = 0, len = length ?out, elem_size = elem_size it\<rparr>"
  have r: "iter_unique it = Some ?u"
    by (rule iter_unique_eq [OF assms(1)])
  have d: "distinct ?out"
    by (rule fold_ins_distinct) simp
  have s: "set ?out \<subseteq> set (elems it)"
    by (simp add: fold_ins_set)
  have "length ?out \<le> length (elems it)"
    by (rule distinct_length_le [OF d s])
  also have "\<dots> < 2 ^ 63"
    using len_small [OF assms(1)] length_elems [OF assms(1)] by simp
  finally have ok: "view_ok ?u"
    by (simp add: view_ok_def)
  have e: "elems ?u = ?out"
    by (simp add: elems_def)
  have l: "len ?u = length (elems ?u)"
    by (simp add: elems_def)
  show thesis
    by (rule that [OF r ok e l])
qed

text \<open>
  C6. On every valid view \<open>iter_unique\<close> returns a valid view without repetitions that
  has the same elements as the input; the cells it keeps are exactly those at the indices
  \<open>k\<close> whose element does not occur before \<open>k\<close> (the first occurrences), in increasing
  order of \<open>k\<close>. On \<open>[1, 2, 2, 3, 4]\<close> the result is \<open>[1, 2, 3, 4]\<close>.
\<close>

theorem iter_unique_first_occurrences:
  "(view_ok v \<longrightarrow>
      (\<exists>u. iter_unique v = Some u \<and> view_ok u
         \<and> distinct (elems u)
         \<and> set (elems u) = set (elems v)
         \<and> elems u = map (\<lambda>k. elems v ! k)
                        (filter (\<lambda>k. elems v ! k \<notin> set (take k (elems v))) [0..<len v])))
   \<and> map_option elems (iter_unique (to_iter [1, 2, 2, 3, 4 :: 32 word] 4)) = Some [1, 2, 3, 4]"
proof -
  let ?F = "\<lambda>xs. fold (\<lambda>x out. if x \<in> set out then out else out @ [x]) xs []"
  have gen: "\<exists>u. iter_unique v = Some u \<and> view_ok u
         \<and> distinct (elems u)
         \<and> set (elems u) = set (elems v)
         \<and> elems u = map (\<lambda>k. elems v ! k)
                        (filter (\<lambda>k. elems v ! k \<notin> set (take k (elems v))) [0..<len v])"
    if ok: "view_ok v"
  proof -
    from iter_unique_view [OF ok] obtain u where u: "iter_unique v = Some u" "view_ok u"
      "elems u = ?F (elems v)" by blast
    have d: "distinct (elems u)"
      unfolding u(3) by (rule fold_ins_distinct) simp
    have s: "set (elems u) = set (elems v)"
      unfolding u(3) by (simp add: fold_ins_set)
    have f: "elems u = map (\<lambda>k. elems v ! k)
                        (filter (\<lambda>k. elems v ! k \<notin> set (take k (elems v))) [0..<len v])"
      unfolding u(3) using fold_ins_first [of "elems v" "[]"] length_elems [OF ok] by simp
    show ?thesis
      using u(1) u(2) d s f by blast
  qed
  have ok5: "view_ok (to_iter [1, 2, 2, 3, 4 :: 32 word] 4)"
    by (simp add: view_ok_def to_iter_def)
  have ex: "map_option elems (iter_unique (to_iter [1, 2, 2, 3, 4 :: 32 word] 4)) = Some [1, 2, 3, 4]"
  proof -
    from iter_unique_view [OF ok5] obtain u
      where u: "iter_unique (to_iter [1, 2, 2, 3, 4 :: 32 word] 4) = Some u"
        "elems u = ?F (elems (to_iter [1, 2, 2, 3, 4 :: 32 word] 4))" by blast
    have "elems u = [1, 2, 3, 4]"
      unfolding u(2) elems_to_iter by simp
    then show ?thesis by (simp add: u(1))
  qed
  show ?thesis using gen ex by blast
qed

theorem iter_unique_first_occurrences_witness:
  "view_ok (to_iter [30, 10, 30, 20, 10 :: int] 4)
   \<and> (\<exists>u. iter_unique (to_iter [30, 10, 30, 20, 10 :: int] 4) = Some u
          \<and> distinct (elems u) \<and> elems u = [30, 10, 20])"
proof -
  have ok: "view_ok (to_iter [30, 10, 30, 20, 10 :: int] 4)"
    by (simp add: view_ok_def to_iter_def)
  have l: "len (to_iter [30, 10, 30, 20, 10 :: int] 4) = 5"
    by (simp add: to_iter_def)
  have up: "[0..<5] = [0, 1, 2, 3, 4]"
    by (simp add: upt_rec)
  from iter_unique_first_occurrences [of "to_iter [30, 10, 30, 20, 10 :: int] 4"] ok
  obtain u where u: "iter_unique (to_iter [30, 10, 30, 20, 10 :: int] 4) = Some u"
    "distinct (elems u)"
    "elems u = map (\<lambda>k. elems (to_iter [30, 10, 30, 20, 10 :: int] 4) ! k)
                 (filter (\<lambda>k. elems (to_iter [30, 10, 30, 20, 10 :: int] 4) ! k
                               \<notin> set (take k (elems (to_iter [30, 10, 30, 20, 10 :: int] 4))))
                    [0..<len (to_iter [30, 10, 30, 20, 10 :: int] 4)])"
    by blast
  have "elems u = [30, 10, 20]"
    unfolding u(3) l up elems_to_iter by simp
  then show ?thesis using ok u(1) u(2) by blast
qed

text \<open>
  C10. On every valid view, \<open>iter_unique\<close> applied to the result of \<open>iter_unique\<close>
  returns a view of the same length with the same elements.
\<close>

theorem iter_unique_idempotent:
  assumes "view_ok v"
  shows "\<exists>u w. iter_unique v = Some u \<and> iter_unique u = Some w
              \<and> len w = len u \<and> elems w = elems u"
proof -
  let ?F = "\<lambda>xs. fold (\<lambda>x out. if x \<in> set out then out else out @ [x]) xs []"
  from iter_unique_view [OF assms] obtain u where u: "iter_unique v = Some u" "view_ok u"
    "elems u = ?F (elems v)" "len u = length (elems u)" by blast
  from iter_unique_view [OF u(2)] obtain w where w: "iter_unique u = Some w"
    "elems w = ?F (elems u)" "len w = length (elems w)" by blast
  have d: "distinct (elems u)"
    unfolding u(3) by (rule fold_ins_distinct) simp
  have same: "elems w = elems u"
    unfolding w(2) using fold_ins_fixed [of "[]" "elems u"] d by simp
  have "len w = len u"
    by (simp add: w(3) u(4) same)
  then show ?thesis
    using u(1) w(1) same by blast
qed

theorem iter_unique_idempotent_witness:
  "view_ok (to_iter [30, 10, 30, 20, 10 :: int] 4)
   \<and> (\<exists>u w. iter_unique (to_iter [30, 10, 30, 20, 10 :: int] 4) = Some u
           \<and> iter_unique u = Some w \<and> len w = len u \<and> elems w = elems u)"
proof -
  have ok: "view_ok (to_iter [30, 10, 30, 20, 10 :: int] 4)"
    by (simp add: view_ok_def to_iter_def)
  show ?thesis
    using ok iter_unique_idempotent [OF ok] by simp
qed


lemma memcpy_cells_view: "view_ok it \<Longrightarrow> memcpy_cells (store it) (data it) (len it) = Some (elems it)"
  by (simp add: memcpy_cells_def view_ok_def elems_def)

lemma elems_fresh:
  "n = length xs \<Longrightarrow> elems \<lparr>store = xs, data = 0, len = n, elem_size = e\<rparr> = xs"
  by (simp add: elems_def)

lemma size_t_small: "n < 2 ^ 64 \<Longrightarrow> size_t n = n"
  by (simp add: size_t_def)

text \<open>
  C9. On every valid view and for every count \<open>n\<close>, \<open>iter_concat\<close> of
  \<open>iter_take v n\<close> and \<open>iter_drop v n\<close> returns a view with the length and the
  elements of \<open>v\<close>; for \<open>n\<close> beyond the length, \<open>iter_take\<close> denotes all of \<open>v\<close> and
  \<open>iter_drop\<close> is empty.
\<close>

theorem iter_take_drop_concat:
  assumes "view_ok v"
  shows "\<exists>r. iter_concat (iter_take v n) (iter_drop v n) = Some r
           \<and> len r = len v \<and> elems r = elems v
           \<and> (len v \<le> n \<longrightarrow> elems (iter_take v n) = elems v \<and> len (iter_drop v n) = 0)"
proof -
  let ?m = "if n < len v then n else len v"
  let ?a = "iter_take v n" and ?b = "iter_drop v n"
  have la: "len ?a = ?m" and lb: "len ?b = len v - ?m"
    by (simp_all add: iter_take_def iter_drop_def Let_def)
  have oka: "view_ok ?a" and okb: "view_ok ?b"
    using assms by (auto simp: view_ok_def iter_take_def iter_drop_def Let_def)
  have ea: "elems ?a = take ?m (elems v)"
    by (simp add: elems_def iter_take_def Let_def min_def)
  have eb: "elems ?b = drop ?m (elems v)"
    by (simp add: elems_def iter_drop_def Let_def drop_take add.commute)
  have sz: "size_t (len ?a + len ?b) = len v"
  proof -
    have "len ?a + len ?b = len v" unfolding la lb by simp
    moreover have "len v < 2 ^ 64"
      using len_small [OF assms] by simp
    ultimately show ?thesis by (simp add: size_t_small)
  qed
  have res: "iter_concat ?a ?b =
      Some \<lparr>store = elems ?a @ elems ?b, data = 0, len = len v, elem_size = elem_size ?a\<rparr>"
    unfolding iter_concat_def memcpy_cells_view [OF oka] memcpy_cells_view [OF okb] sz by simp
  have app: "elems ?a @ elems ?b = elems v"
    unfolding ea eb by (rule append_take_drop_id)
  have el: "elems \<lparr>store = elems ?a @ elems ?b, data = 0, len = len v, elem_size = elem_size ?a\<rparr>
            = elems v"
    unfolding app by (rule elems_fresh) (simp add: length_elems [OF assms])
  have big: "elems ?a = elems v \<and> len ?b = 0" if "len v \<le> n"
    using that length_elems [OF assms] unfolding ea lb by simp
  show ?thesis
    using res el big by (intro exI [of _ "\<lparr>store = elems ?a @ elems ?b, data = 0, len = len v, elem_size = elem_size ?a\<rparr>"]) simp
qed

theorem iter_take_drop_concat_witness:
  "view_ok (to_iter [10, 20, 30, 40 :: int] 4)
   \<and> (\<exists>r. iter_concat (iter_take (to_iter [10, 20, 30, 40 :: int] 4) 9)
                       (iter_drop (to_iter [10, 20, 30, 40 :: int] 4) 9) = Some r
          \<and> len r = 4 \<and> elems r = [10, 20, 30, 40]
          \<and> len (iter_drop (to_iter [10, 20, 30, 40 :: int] 4) 9) = 0)"
proof -
  have ok: "view_ok (to_iter [10, 20, 30, 40 :: int] 4)"
    by (simp add: view_ok_def to_iter_def)
  have l: "len (to_iter [10, 20, 30, 40 :: int] 4) = 4"
    by (simp add: to_iter_def)
  show ?thesis
    using ok iter_take_drop_concat [OF ok, of 9] by (auto simp: elems_to_iter l)
qed


text \<open>
  C7. The second iterator test of example.c, from \<open>[1, 2, 2, 3, 4]\<close> through repeat,
  concat, reverse, unique, pad and slice, ends in a view of exactly 5 elements,
  \<open>[2, 1, 99, 99, 99]\<close>.
\<close>

theorem example_t2_result:
  "map_option len example_t2 = Some 5
   \<and> map_option elems example_t2 = Some [2, 1, 99, 99, 99]"
proof -
  have r: "example_t2 = Some \<lparr>store = [4, 3, 2, 1, 99, 99, 99, 99, 99, 99], data = 2, len = 5, elem_size = 4\<rparr>"
    by (simp add: example_t2_def arr2_def to_iter_def iter_repeat_def repeat_loop.simps memcpy_cells_def
      iter_concat_def size_t_def iter_reverse_def reverse_loop.simps rd_def iter_unique_def
      unique_loop.simps unique_find.simps iter_pad_def iter_pad_ptr_def pad_copy_loop.simps
      pad_fill_loop.simps iter_slice_def Let_def)
  show ?thesis
    unfolding r by (simp add: elems_def)
qed

text \<open>
  C2. A pipe with five arguments expands to \<open>PIPE_STEP_4\<close>: the first argument
  initialises the placeholder and the four steps are applied to it from left to right. With
  the step functions of example.c the placeholder takes the values \<open>5\<close>, \<open>-1\<close>,
  \<open>-5\<close>, \<open>-6\<close> and finally \<open>-12\<close>.
\<close>

theorem pipe_example_trace:
  "pipe init [s1, s2, s3, s4] = Some (s4 (s3 (s2 (s1 init))))
   \<and> sint (add_int 3 2) = 5
   \<and> sint (sub_int 4 (add_int 3 2)) = - 1
   \<and> sint (mul_int 5 (sub_int 4 (add_int 3 2))) = - 5
   \<and> sint (sub_int (mul_int 5 (sub_int 4 (add_int 3 2))) 1) = - 6
   \<and> map_option sint
        (pipe (add_int 3 2)
           [\<lambda>p. sub_int 4 p, \<lambda>p. mul_int 5 p, \<lambda>p. sub_int p 1, \<lambda>p. add_int p p])
       = Some (- 12)"
proof -
  have sel: "GET_PIPE_MACRO (replicate (Suc (length [a, b, c, d :: 'x \<Rightarrow> 'x])) Given @
             map Macro [PIPE_STEP 10, PIPE_STEP 9, PIPE_STEP 8, PIPE_STEP 7, PIPE_STEP 6,
                        PIPE_STEP 5, PIPE_STEP 4, PIPE_STEP 3, PIPE_STEP 2, PIPE_STEP 1])
             = Some (Macro (PIPE_STEP 4))" for a b c d
    by (simp add: GET_PIPE_MACRO_def nth_append)
  have gen: "pipe i [a, b, c, d] = Some (d (c (b (a i))))" for i :: 'x and a b c d
    unfolding pipe_def sel by (simp add: expand_pipe_def PIPE_STEP_4_def)
  show ?thesis
    unfolding gen by (simp add: add_int_def sub_int_def mul_int_def)
qed

text \<open>
  C1. \<open>chain\<close> with an input and \<open>n\<close> functions selects \<open>CHAIN_n\<close>, a macro written
  for \<open>n - 1\<close> functions, so the expansion is rejected for every \<open>n\<close> from 1 to 9
  except 4, where \<open>CHAIN_4\<close> has the parameter list that fits and the nested application
  is computed.
\<close>

theorem chain_arities:
  "chain x [f1] = None
   \<and> chain x [f1, f2] = None
   \<and> chain x [f1, f2, f3] = None
   \<and> chain x [f1, f2, f3, f4] = Some (f4 (f3 (f2 (f1 x))))
   \<and> chain x [f1, f2, f3, f4, f5] = None
   \<and> chain x [f1, f2, f3, f4, f5, f6] = None
   \<and> chain x [f1, f2, f3, f4, f5, f6, f7] = None
   \<and> chain x [f1, f2, f3, f4, f5, f6, f7, f8] = None
   \<and> chain x [f1, f2, f3, f4, f5, f6, f7, f8, f9] = None"
  by (simp add: chain_def GET_CHAIN_MACRO_def nth_append expand_chain_def
      CHAIN_2_def CHAIN_3_def CHAIN_4_def CHAIN_5_def CHAIN_6_def CHAIN_7_def CHAIN_8_def
      CHAIN_9_def CHAIN_10_def)

end
